theory Spec2Isabelle
  imports Complex_Main "HOL-Library.Signed_Division" "HOL-Library.Multiset"
begin

section \<open>Conventions of the embedding\<close>

text \<open>
  The C++ sources \<^verbatim>\<open>minheap.cpp\<close>, \<^verbatim>\<open>graph.cpp\<close> and \<^verbatim>\<open>dijkstra.cpp\<close> are
  embedded as HOL functions.

  \<^item> A C++ \<^verbatim>\<open>int\<close> that holds a node id, a distance, a weight or a battery amount is
    a HOL \<open>int\<close>; the sentinel \<^verbatim>\<open>numeric_limits<int>::max()\<close> is the constant
    \<open>INT_MAX\<close>. Signed overflow is undefined in C++ (a compiler may wrap the sum, or
    not): where the code adds two \<^verbatim>\<open>int\<close>s, or divides them, and the result leaves the
    range from \<open>INT_MIN\<close> to \<open>INT_MAX\<close>, the model gives the error
    \<open>UndefinedBehaviour\<close>. So a theorem about a run that returns normally is about a run
    without overflow.
  \<^item> A position in the heap vector is a \<open>nat\<close>: the code only ever produces the
    positions \<^verbatim>\<open>size() - 1\<close>, \<^verbatim>\<open>(index - 1) / 2\<close> for a non-zero index and
    \<^verbatim>\<open>2 * index + 1\<close>, \<^verbatim>\<open>2 * index + 2\<close>, none of them negative (the model describes
    heaps of fewer than \<open>2^30\<close> entries, where the last two do not overflow).
  \<^item> An exception is a value \<open>Inl e\<close> of the type \<open>error + 'a\<close>, one constructor of
    \<open>error\<close> per C++ exception class, carrying the message of the \<^verbatim>\<open>throw\<close>.
    A read of a vector outside its bounds and a division by zero, both undefined in
    C++, are the error \<open>UndefinedBehaviour\<close>.
  \<^item> A loop that the code does not bound is a \<^theory_text>\<open>partial_function\<close> into \<open>option\<close>:
    \<open>None\<close> is a run that never returns.
  \<^item> The functions keep their C++ names. Where two classes share a name, the one of
    \<^verbatim>\<open>Graph\<close> has the prefix \<open>Graph_\<close> (\<open>Graph_addNode\<close>); the constructors are
    \<open>MinHeap_new\<close> and \<open>Graph_new\<close>, \<^verbatim>\<open>MinHeap::size\<close> is \<open>size_heap\<close>, and
    \<^verbatim>\<open>HeapNode::operator>\<close> is \<open>HeapNode_gt\<close>.
\<close>

datatype error =
    OutOfRange string
  | RuntimeError string
  | InvalidArgument string
  | UndefinedBehaviour

section \<open>The indexed binary min-heap (minheap.h, minheap.cpp)\<close>

record HeapNode =
  nodeId :: int
  distance :: int

text \<open>\<^verbatim>\<open>HeapNode::operator>\<close> compares the distances only.\<close>

definition HeapNode_gt :: "HeapNode \<Rightarrow> HeapNode \<Rightarrow> bool" where
  "HeapNode_gt a b = (distance a > distance b)"

record MinHeap =
  heap :: "HeapNode list"
  nodeToIndex :: "int \<rightharpoonup> nat"

text \<open>The constructor \<^verbatim>\<open>MinHeap::MinHeap()\<close>: an empty vector and an empty map.\<close>

definition MinHeap_new :: MinHeap where
  "MinHeap_new = \<lparr>heap = [], nodeToIndex = Map.empty\<rparr>"

definition swapNodes :: "nat \<Rightarrow> nat \<Rightarrow> MinHeap \<Rightarrow> error + MinHeap" where
  "swapNodes index1 index2 h =
     (if index1 \<ge> length (heap h) \<or> index2 \<ge> length (heap h)
      then Inl (OutOfRange ''Heap index out of range'')
      else
        let temp = heap h ! index1;
            v1 = (heap h)[index1 := heap h ! index2];
            v2 = v1[index2 := temp];
            m1 = (nodeToIndex h)(nodeId (v2 ! index1) \<mapsto> index1);
            m2 = m1(nodeId (v2 ! index2) \<mapsto> index2)
        in Inr \<lparr>heap = v2, nodeToIndex = m2\<rparr>)"

lemma swapNodes_length:
  "swapNodes i j h = Inr h' \<Longrightarrow> length (heap h') = length (heap h)"
  by (auto simp: swapNodes_def Let_def split: if_splits)

text \<open>
  \<^verbatim>\<open>bubbleUp\<close> reads \<^verbatim>\<open>heap[index]\<close> before it calls \<^verbatim>\<open>swapNodes\<close>, so an index
  outside the vector is undefined behaviour rather than the exception of \<^verbatim>\<open>swapNodes\<close>.
  The test \<^verbatim>\<open>heap[index] > heap[parentIndex]\<close> is strict: an entry equal to its
  parent is swapped upwards.
\<close>

function bubbleUp :: "nat \<Rightarrow> MinHeap \<Rightarrow> error + MinHeap" where
  "bubbleUp index h =
     (if index = 0 then Inr h
      else if index \<ge> length (heap h) then Inl UndefinedBehaviour
      else
        let parentIndex = (index - 1) div 2 in
        if HeapNode_gt (heap h ! index) (heap h ! parentIndex) then Inr h
        else (case swapNodes index parentIndex h of
                Inl e \<Rightarrow> Inl e
              | Inr h' \<Rightarrow> bubbleUp parentIndex h'))"
  by pat_completeness auto
termination
  by (relation "measure (\<lambda>(index, h). index)") auto

declare bubbleUp.simps [simp del]

text \<open>
  \<^verbatim>\<open>bubbleDown\<close> reads \<^verbatim>\<open>heap[leftChild]\<close> and \<^verbatim>\<open>heap[rightChild]\<close> only behind the
  tests \<^verbatim>\<open>leftChild < heap.size()\<close> and \<^verbatim>\<open>rightChild < heap.size()\<close>, and
  \<^verbatim>\<open>heap[smallest]\<close> only behind one of them: at an index outside the vector it returns
  without a read. An entry equal to its child is swapped downwards.
\<close>

function bubbleDown :: "nat \<Rightarrow> MinHeap \<Rightarrow> error + MinHeap" where
  "bubbleDown index h =
     (let leftChild = 2 * index + 1;
          rightChild = 2 * index + 2;
          smallest = index;
          smallest = (if leftChild < length (heap h)
                         \<and> \<not> HeapNode_gt (heap h ! leftChild) (heap h ! smallest)
                      then leftChild else smallest);
          smallest = (if rightChild < length (heap h)
                         \<and> \<not> HeapNode_gt (heap h ! rightChild) (heap h ! smallest)
                      then rightChild else smallest)
      in if smallest \<noteq> index
         then (case swapNodes index smallest h of
                 Inl e \<Rightarrow> Inl e
               | Inr h' \<Rightarrow> bubbleDown smallest h')
         else Inr h)"
  by pat_completeness auto
termination
  by (relation "measure (\<lambda>(index, h). length (heap h) - index)")
     (auto simp: Let_def dest!: swapNodes_length split: if_splits)

declare bubbleDown.simps [simp del]

definition isEmpty :: "MinHeap \<Rightarrow> bool" where
  "isEmpty h = (heap h = [])"

definition size_heap :: "MinHeap \<Rightarrow> nat" where
  "size_heap h = length (heap h)"

definition contains :: "MinHeap \<Rightarrow> int \<Rightarrow> bool" where
  "contains h n = (nodeToIndex h n \<noteq> None)"

definition decreaseKey :: "int \<Rightarrow> int \<Rightarrow> MinHeap \<Rightarrow> error + MinHeap" where
  "decreaseKey n newDistance h =
     (case nodeToIndex h n of
        None \<Rightarrow> Inl (InvalidArgument ''Node not found in heap'')
      | Some index \<Rightarrow>
          if index \<ge> length (heap h) then Inl UndefinedBehaviour
          else if newDistance \<ge> distance (heap h ! index) then Inr h
          else bubbleUp index
                 (h\<lparr>heap := (heap h)[index := (heap h ! index)\<lparr>distance := newDistance\<rparr>]\<rparr>))"

definition addNode :: "int \<Rightarrow> int \<Rightarrow> MinHeap \<Rightarrow> error + MinHeap" where
  "addNode n d h =
     (if contains h n then decreaseKey n d h
      else
        let v = heap h @ [\<lparr>nodeId = n, distance = d\<rparr>];
            newIndex = length v - 1
        in bubbleUp newIndex \<lparr>heap = v, nodeToIndex = (nodeToIndex h)(n \<mapsto> newIndex)\<rparr>)"

text \<open>
  \<^verbatim>\<open>deleteRoot\<close> returns the removed root together with the heap it leaves.
\<close>

definition deleteRoot :: "MinHeap \<Rightarrow> error + (HeapNode \<times> MinHeap)" where
  "deleteRoot h =
     (if isEmpty h then Inl (RuntimeError ''Cannot delete from empty heap'')
      else
        let root = heap h ! 0 in
        if length (heap h) = 1
        then Inr (root, \<lparr>heap = [], nodeToIndex = Map.empty\<rparr>)
        else
          let v = butlast ((heap h)[0 := last (heap h)]);
              m1 = (nodeToIndex h)(nodeId root := None);
              m2 = m1(nodeId (v ! 0) \<mapsto> 0)
          in (case bubbleDown 0 \<lparr>heap = v, nodeToIndex = m2\<rparr> of
                Inl e \<Rightarrow> Inl e
              | Inr h' \<Rightarrow> Inr (root, h')))"

definition getDistance :: "MinHeap \<Rightarrow> int \<Rightarrow> error + int" where
  "getDistance h n =
     (case nodeToIndex h n of
        None \<Rightarrow> Inl (InvalidArgument ''Node not found in heap'')
      | Some i \<Rightarrow> if i < length (heap h) then Inr (distance (heap h ! i))
                  else Inl UndefinedBehaviour)"

definition clear :: "MinHeap \<Rightarrow> MinHeap" where
  "clear h = \<lparr>heap = [], nodeToIndex = Map.empty\<rparr>"

section \<open>The graph (graph.h, graph.cpp)\<close>

text \<open>
  The fields \<^verbatim>\<open>id\<close>, \<^verbatim>\<open>x\<close> and \<^verbatim>\<open>y\<close> of \<^verbatim>\<open>struct Node\<close> are \<open>idNode\<close>, \<open>xPos\<close> and
  \<open>yPos\<close> here (\<open>id\<close> is the identity function of HOL). The coordinates are C++
  doubles; the solver never reads them, and they are reals here.
\<close>

record Node =
  idNode :: int
  xPos :: real
  yPos :: real

record Graph =
  name :: string
  nodes :: "Node list"
  adjacencyList :: "int \<rightharpoonup> (int \<times> int) list"
  edgeWeights :: "int \<rightharpoonup> (int \<rightharpoonup> int)"

definition Graph_new :: Graph where
  "Graph_new = \<lparr>name = ''Untitled Graph'', nodes = [], adjacencyList = Map.empty,
                 edgeWeights = Map.empty\<rparr>"

text \<open>The inner loop of \<^verbatim>\<open>Graph::addNode\<close>: the first node with the id gets the position.\<close>

fun setPosition :: "int \<Rightarrow> real \<Rightarrow> real \<Rightarrow> Node list \<Rightarrow> Node list" where
  "setPosition n x y [] = []"
| "setPosition n x y (node # rest) =
     (if idNode node = n then node\<lparr>xPos := x, yPos := y\<rparr> # rest
      else node # setPosition n x y rest)"

definition Graph_addNode :: "int \<Rightarrow> real \<Rightarrow> real \<Rightarrow> Graph \<Rightarrow> Graph" where
  "Graph_addNode n x y g =
     (if \<exists>node\<in>set (nodes g). idNode node = n
      then (if x \<noteq> 0 \<or> y \<noteq> 0 then g\<lparr>nodes := setPosition n x y (nodes g)\<rparr> else g)
      else g\<lparr>nodes := nodes g @ [\<lparr>idNode = n, xPos = x, yPos = y\<rparr>],
              adjacencyList := (adjacencyList g)(n \<mapsto> [])\<rparr>)"

text \<open>
  \<^verbatim>\<open>adjacencyList[k]\<close> and \<^verbatim>\<open>edgeWeights[k]\<close>: \<^verbatim>\<open>operator[]\<close> of \<^verbatim>\<open>unordered_map\<close> gives
  the stored value, or a fresh empty one for a key that is absent.
\<close>

definition adjacencyAt :: "(int \<rightharpoonup> (int \<times> int) list) \<Rightarrow> int \<Rightarrow> (int \<times> int) list" where
  "adjacencyAt a k = (case a k of None \<Rightarrow> [] | Some l \<Rightarrow> l)"

definition setEdgeWeight :: "int \<Rightarrow> int \<Rightarrow> int \<Rightarrow> (int \<rightharpoonup> (int \<rightharpoonup> int)) \<Rightarrow> (int \<rightharpoonup> (int \<rightharpoonup> int))" where
  "setEdgeWeight a b w e = e(a \<mapsto> (case e a of None \<Rightarrow> Map.empty | Some r \<Rightarrow> r)(b \<mapsto> w))"

text \<open>The first loop of \<^verbatim>\<open>Graph::addEdge\<close>: the first entry for the neighbour gets the weight.\<close>

fun setWeight :: "int \<Rightarrow> int \<Rightarrow> (int \<times> int) list \<Rightarrow> (int \<times> int) list" where
  "setWeight toN w [] = []"
| "setWeight toN w (neighbor # rest) =
     (if fst neighbor = toN then (fst neighbor, w) # rest
      else neighbor # setWeight toN w rest)"

definition addEdge :: "int \<Rightarrow> int \<Rightarrow> int \<Rightarrow> Graph \<Rightarrow> Graph" where
  "addEdge fromN toN weight g =
     (let g1 = Graph_addNode fromN 0 0 g;
          g2 = Graph_addNode toN 0 0 g1;
          ns = adjacencyAt (adjacencyList g2) fromN
      in if \<exists>neighbor\<in>set ns. fst neighbor = toN
         then g2\<lparr>adjacencyList := (adjacencyList g2)(fromN \<mapsto> setWeight toN weight ns),
                 edgeWeights := setEdgeWeight fromN toN weight (edgeWeights g2)\<rparr>
         else
           let a1 = (adjacencyList g2)(fromN \<mapsto> ns @ [(toN, weight)]);
               a2 = a1(toN \<mapsto> adjacencyAt a1 toN @ [(fromN, weight)]);
               e1 = setEdgeWeight fromN toN weight (edgeWeights g2);
               e2 = setEdgeWeight toN fromN weight e1
           in g2\<lparr>adjacencyList := a2, edgeWeights := e2\<rparr>)"

definition getNodes :: "Graph \<Rightarrow> Node list" where
  "getNodes g = nodes g"

definition getNeighbors :: "Graph \<Rightarrow> int \<Rightarrow> (int \<times> int) list" where
  "getNeighbors g node = (case adjacencyList g node of Some l \<Rightarrow> l | None \<Rightarrow> [])"

definition getNodeCount :: "Graph \<Rightarrow> int" where
  "getNodeCount g = int (length (nodes g))"

text \<open>\<^verbatim>\<open>std::to_string\<close> on an \<^verbatim>\<open>int\<close>: the decimal digits, with a minus sign.\<close>

function decimal :: "nat \<Rightarrow> string" where
  "decimal n = (if n < 10 then [char_of (48 + n)]
                else decimal (n div 10) @ [char_of (48 + n mod 10)])"
  by pat_completeness auto
termination
  by (relation "measure (\<lambda>n. n)") auto

declare decimal.simps [simp del]

definition to_string :: "int \<Rightarrow> string" where
  "to_string i = (if i < 0 then CHR ''-'' # decimal (nat (- i)) else decimal (nat i))"

definition getNode :: "Graph \<Rightarrow> int \<Rightarrow> error + Node" where
  "getNode g n =
     (case find (\<lambda>node. idNode node = n) (nodes g) of
        Some node \<Rightarrow> Inr node
      | None \<Rightarrow> Inl (OutOfRange (''Node with ID '' @ to_string n @ '' not found'')))"

section \<open>The solver (dijkstra.cpp)\<close>

text \<open>
  \<^verbatim>\<open>PathfindingResult result;\<close> leaves the two \<^verbatim>\<open>int\<close> members uninitialised, and the
  solver assigns them on its two successful returns only. A member that was never
  assigned holds an indeterminate value: it is \<open>None\<close> here, and \<open>Some v\<close> once the
  code has stored \<open>v\<close>.
\<close>

record PathfindingResult =
  path :: "int list"
  totalDistance :: "int option"
  totalBatteryUsed :: "int option"
  success :: bool
  message :: string

definition INT_MAX :: int where
  "INT_MAX = 2147483647"

definition INT_MIN :: int where
  "INT_MIN = - 2147483648"

text \<open>The values of a 32-bit \<^verbatim>\<open>int\<close>.\<close>

definition inRange :: "int \<Rightarrow> bool" where
  "inRange i = (INT_MIN \<le> i \<and> i \<le> INT_MAX)"

text \<open>
  The three maps of the solver are read and written with \<^verbatim>\<open>operator[]\<close> only, which
  value-initialises an absent key: a read of an absent key gives 0. (The entry that
  such a read inserts cannot be seen by a later read, and is not recorded.)
\<close>

definition valueAt :: "(int \<rightharpoonup> int) \<Rightarrow> int \<Rightarrow> int" where
  "valueAt m k = (case m k of None \<Rightarrow> 0 | Some v \<Rightarrow> v)"

record SolverState =
  distances :: "int \<rightharpoonup> int"
  batteryUsed :: "int \<rightharpoonup> int"
  previous :: "int \<rightharpoonup> int"
  minHeap :: MinHeap

text \<open>The loop "Initialize all nodes".\<close>

fun initNodes :: "Node list \<Rightarrow> SolverState \<Rightarrow> SolverState" where
  "initNodes [] s = s"
| "initNodes (node # rest) s =
     initNodes rest
       (s\<lparr>distances := (distances s)(idNode node \<mapsto> INT_MAX),
          batteryUsed := (batteryUsed s)(idNode node \<mapsto> INT_MAX),
          previous := (previous s)(idNode node \<mapsto> - 1)\<rparr>)"

text \<open>
  Lines 88 and 89: the battery an edge consumes. The C++ division of two \<^verbatim>\<open>int\<close>s
  truncates towards zero (\<open>sdiv\<close>); it is undefined by zero, and for \<open>INT_MIN\<close> by
  \<open>- 1\<close>, whose quotient is no \<^verbatim>\<open>int\<close>.
\<close>

definition batteryConsumption :: "int \<Rightarrow> int \<Rightarrow> error + int" where
  "batteryConsumption edgeWeight mileage =
     (if mileage = 0 \<or> (edgeWeight = INT_MIN \<and> mileage = - 1) then Inl UndefinedBehaviour
      else
        let c = edgeWeight sdiv mileage in
        Inr (if c < 1 then 1 else c))"

text \<open>
  The body of the loop over the neighbours (lines 84 to 105). The two sums of lines 91
  and 92 are computed before the test of line 95, for every neighbour: when one of
  them overflows, the behaviour is undefined whether the relaxation would be accepted
  or not.
\<close>

definition relaxEdge :: "int \<Rightarrow> int \<Rightarrow> int \<Rightarrow> int \<times> int \<Rightarrow> SolverState \<Rightarrow> error + SolverState" where
  "relaxEdge initialBattery mileage currentNode neighbor s =
     (let neighborNode = fst neighbor;
          edgeWeight = snd neighbor
      in case batteryConsumption edgeWeight mileage of
           Inl e \<Rightarrow> Inl e
         | Inr consumption \<Rightarrow>
             let newBatteryUsed = valueAt (batteryUsed s) currentNode + consumption;
                 newDistance = valueAt (distances s) currentNode + edgeWeight
             in if \<not> inRange newBatteryUsed \<or> \<not> inRange newDistance
                then Inl UndefinedBehaviour
                else if newBatteryUsed \<le> initialBattery
                        \<and> newDistance < valueAt (distances s) neighborNode
                then
                  let s1 = s\<lparr>distances := (distances s)(neighborNode \<mapsto> newDistance),
                             batteryUsed := (batteryUsed s)(neighborNode \<mapsto> newBatteryUsed),
                             previous := (previous s)(neighborNode \<mapsto> currentNode)\<rparr>
                  in case (if contains (minHeap s1) neighborNode
                           then decreaseKey neighborNode newDistance (minHeap s1)
                           else addNode neighborNode newDistance (minHeap s1)) of
                       Inl e \<Rightarrow> Inl e
                     | Inr h \<Rightarrow> Inr (s1\<lparr>minHeap := h\<rparr>)
                else Inr s)"

fun exploreNeighbors :: "int \<Rightarrow> int \<Rightarrow> int \<Rightarrow> (int \<times> int) list \<Rightarrow> SolverState \<Rightarrow> error + SolverState" where
  "exploreNeighbors initialBattery mileage currentNode [] s = Inr s"
| "exploreNeighbors initialBattery mileage currentNode (neighbor # rest) s =
     (case relaxEdge initialBattery mileage currentNode neighbor s of
        Inl e \<Rightarrow> Inl e
      | Inr s' \<Rightarrow> exploreNeighbors initialBattery mileage currentNode rest s')"

text \<open>
  The loop \<^verbatim>\<open>while (!minHeap.isEmpty())\<close> (lines 72 to 107), with its \<^verbatim>\<open>break\<close> at the
  destination. Nothing in the code bounds the number of its rounds.
\<close>

partial_function (option) mainLoop ::
  "Graph \<Rightarrow> int \<Rightarrow> int \<Rightarrow> int \<Rightarrow> SolverState \<Rightarrow> (error + SolverState) option" where
  "mainLoop graph destination initialBattery mileage s =
     (if isEmpty (minHeap s) then Some (Inr s)
      else case deleteRoot (minHeap s) of
             Inl e \<Rightarrow> Some (Inl e)
           | Inr (current, h) \<Rightarrow>
               let currentNode = nodeId current;
                   s1 = s\<lparr>minHeap := h\<rparr>
               in if currentNode = destination then Some (Inr s1)
                  else (case exploreNeighbors initialBattery mileage currentNode
                               (getNeighbors graph currentNode) s1 of
                          Inl e \<Rightarrow> Some (Inl e)
                        | Inr s2 \<Rightarrow> mainLoop graph destination initialBattery mileage s2))"

text \<open>
  The loop \<^verbatim>\<open>while (current != -1)\<close> (lines 118 to 121) follows \<^verbatim>\<open>previous\<close> from the
  destination; it runs for ever on a cycle of \<^verbatim>\<open>previous\<close>.
\<close>

partial_function (option) buildPath :: "(int \<rightharpoonup> int) \<Rightarrow> int \<Rightarrow> int list \<Rightarrow> int list option" where
  "buildPath prev current p =
     (if current \<noteq> - 1 then buildPath prev (valueAt prev current) (p @ [current])
      else Some p)"

declare mainLoop.simps [code]
declare buildPath.simps [code]

definition result0 :: PathfindingResult where
  "result0 = \<lparr>path = [], totalDistance = None, totalBatteryUsed = None, success = False,
               message = []\<rparr>"

text \<open>
  Lines 51 to 69: the three maps and the heap as the main loop finds them. (\<open>addNode\<close>
  cannot throw on the new heap; the model keeps the case.)
\<close>

definition initialState :: "Graph \<Rightarrow> int \<Rightarrow> error + SolverState" where
  "initialState graph source =
     (let s0 = \<lparr>distances = Map.empty, batteryUsed = Map.empty,
               previous = Map.empty, minHeap = MinHeap_new\<rparr>;
          s1 = initNodes (getNodes graph) s0;
          s2 = s1\<lparr>distances := (distances s1)(source \<mapsto> 0)\<rparr>;
          s3 = s2\<lparr>batteryUsed := (batteryUsed s2)(source \<mapsto> 0)\<rparr>
      in case addNode source 0 (minHeap s3) of
           Inl e \<Rightarrow> Inl e
         | Inr h \<Rightarrow> Inr (s3\<lparr>minHeap := h\<rparr>))"

text \<open>
  \<^verbatim>\<open>dijkstraWithBattery\<close>. \<open>None\<close>: the call never returns; \<open>Some (Inl e)\<close>: it throws
  \<open>e\<close>; \<open>Some (Inr r)\<close>: it returns \<open>r\<close>. The \<^verbatim>\<open>catch\<close> of line 40 takes
  \<^verbatim>\<open>out_of_range\<close> only.
\<close>

definition dijkstraWithBattery ::
  "Graph \<Rightarrow> int \<Rightarrow> int \<Rightarrow> int \<Rightarrow> int \<Rightarrow> (error + PathfindingResult) option" where
  "dijkstraWithBattery graph source destination initialBattery mileage =
     (let result = result0\<lparr>success := False\<rparr> in
      if source = destination
      then Some (Inr (result\<lparr>message := ''Source and destination are the same'',
                             path := [source],
                             totalDistance := Some 0,
                             totalBatteryUsed := Some 0,
                             success := True\<rparr>))
      else
        case (case getNode graph source of
                Inl e \<Rightarrow> Inl e
              | Inr _ \<Rightarrow> getNode graph destination) of
          Inl (OutOfRange _) \<Rightarrow>
            Some (Inr (result\<lparr>message := ''Invalid source or destination node''\<rparr>))
        | Inl e \<Rightarrow> Some (Inl e)
        | Inr _ \<Rightarrow>
            let n = getNodeCount graph in
            if n = 0 then Some (Inr (result\<lparr>message := ''Graph is empty''\<rparr>))
            else
              case initialState graph source of
                Inl e \<Rightarrow> Some (Inl e)
              | Inr s0 \<Rightarrow>
                  (case mainLoop graph destination initialBattery mileage s0 of
                     None \<Rightarrow> None
                   | Some (Inl e) \<Rightarrow> Some (Inl e)
                   | Some (Inr s) \<Rightarrow>
                       if valueAt (distances s) destination = INT_MAX
                       then Some (Inr (result\<lparr>message :=
                              ''No path exists within battery constraints''\<rparr>))
                       else
                         (case buildPath (previous s) destination [] of
                            None \<Rightarrow> None
                          | Some p \<Rightarrow>
                              Some (Inr (result\<lparr>path := rev p,
                                totalDistance := Some (valueAt (distances s) destination),
                                totalBatteryUsed := Some (valueAt (batteryUsed s) destination),
                                success := True,
                                message := ''Path found successfully''\<rparr>)))))"

section \<open>Vocabulary of the statements\<close>

subsection \<open>The invariant of the heap\<close>

text \<open>
  Heap order: the entry at every position is no greater than the entries at its two
  children, the positions \<open>2 * i + 1\<close> and \<open>2 * i + 2\<close>, where they exist.
\<close>

definition heap_order :: "HeapNode list \<Rightarrow> bool" where
  "heap_order v =
     (\<forall>i\<in>{0..<length v}.
        (2 * i + 1 < length v \<longrightarrow> distance (v ! i) \<le> distance (v ! (2 * i + 1))) \<and>
        (2 * i + 2 < length v \<longrightarrow> distance (v ! i) \<le> distance (v ! (2 * i + 2))))"

text \<open>
  Index consistency: the keys of \<open>nodeToIndex\<close> are exactly the node ids stored in the
  vector, and each id is mapped to the position of its entry.
\<close>

definition index_ok :: "MinHeap \<Rightarrow> bool" where
  "index_ok h =
     (dom (nodeToIndex h) = nodeId ` set (heap h) \<and>
      (\<forall>i\<in>{0..<length (heap h)}. nodeToIndex h (nodeId (heap h ! i)) = Some i))"

definition heap_inv :: "MinHeap \<Rightarrow> bool" where
  "heap_inv h = (heap_order (heap h) \<and> index_ok h)"

subsection \<open>Sequences of calls\<close>




subsection \<open>Nodes of a graph\<close>

text \<open>A node id is present in a graph when \<^verbatim>\<open>getNode\<close> finds it in the node vector.\<close>

definition hasNode :: "Graph \<Rightarrow> int \<Rightarrow> bool" where
  "hasNode g n = (n \<in> idNode ` set (nodes g))"

subsection \<open>Graphs with valid edges\<close>


subsection \<open>The amounts compared with the budget\<close>




subsection \<open>Example inputs\<close>

text \<open>A heap of three entries with the root 2, and a solver state of two nodes.\<close>

definition heap_example :: MinHeap where
  "heap_example =
     \<lparr>heap = [\<lparr>nodeId = 2, distance = 3\<rparr>, \<lparr>nodeId = 1, distance = 5\<rparr>,
              \<lparr>nodeId = 3, distance = 4\<rparr>],
      nodeToIndex = [2 \<mapsto> 0, 1 \<mapsto> 1, 3 \<mapsto> 2]\<rparr>"

definition state_example :: SolverState where
  "state_example =
     \<lparr>distances = [1 \<mapsto> 0, 2 \<mapsto> INT_MAX], batteryUsed = [1 \<mapsto> 0, 2 \<mapsto> INT_MAX],
      previous = [1 \<mapsto> - 1, 2 \<mapsto> - 1], minHeap = MinHeap_new\<rparr>"

text \<open>
  Graphs built with \<^verbatim>\<open>addEdge\<close> from the empty graph: the path 1 - 2 - 3 with weights
  10; the two components 1 - 2 and 3 - 4; a graph in which node 4 is reached from
  node 1 by the direct edge of weight 19 (battery 1 at rate 10) or over the nodes 2 and
  3 by three edges of weight 1 (battery 3), with the destination 5 behind node 4; and
  the same graph with one more edge, from node 1 to node 5, of weight 35 (battery 3).
\<close>

definition graph123 :: Graph where
  "graph123 = addEdge 2 3 10 (addEdge 1 2 10 Graph_new)"

definition disconnected :: Graph where
  "disconnected = addEdge 3 4 10 (addEdge 1 2 10 Graph_new)"



subsection \<open>Auxiliary notions of the proofs\<close>

text \<open>
  The parent and the children of a position, the smaller of a position and its children
  as \<^verbatim>\<open>bubbleDown\<close> selects it, and heap order with one exception: \<open>up_ok v k\<close> allows
  the entry at \<open>k\<close> to be smaller than its parent, \<open>down_ok v k\<close> allows it to be
  greater than its children.
\<close>

definition parent :: "nat \<Rightarrow> nat" where
  "parent i = (i - 1) div 2"

definition left :: "nat \<Rightarrow> nat" where "left i = 2 * i + 1"
definition right :: "nat \<Rightarrow> nat" where "right i = 2 * i + 2"

definition smallest_of :: "HeapNode list \<Rightarrow> nat \<Rightarrow> nat" where
  "smallest_of v index =
     (let s1 = (if 2 * index + 1 < length v \<and> \<not> HeapNode_gt (v ! (2 * index + 1)) (v ! index)
                then 2 * index + 1 else index)
      in if 2 * index + 2 < length v \<and> \<not> HeapNode_gt (v ! (2 * index + 2)) (v ! s1)
         then 2 * index + 2 else s1)"

definition up_ok :: "HeapNode list \<Rightarrow> nat \<Rightarrow> bool" where
  "up_ok v k =
     ((\<forall>i\<in>{1..<length v}. i \<noteq> k \<longrightarrow> distance (v ! (parent i)) \<le> distance (v ! i)) \<and>
      (\<forall>i\<in>{1..<length v}. 0 < k \<longrightarrow> parent i = k \<longrightarrow>
          distance (v ! (parent k)) \<le> distance (v ! i)))"

definition down_ok :: "HeapNode list \<Rightarrow> nat \<Rightarrow> bool" where
  "down_ok v k =
     ((\<forall>i\<in>{1..<length v}. parent i \<noteq> k \<longrightarrow> distance (v ! parent i) \<le> distance (v ! i)) \<and>
      (\<forall>i\<in>{1..<length v}. 0 < k \<longrightarrow> parent i = k \<longrightarrow>
          distance (v ! parent k) \<le> distance (v ! i)))"








section \<open>Properties of the heap\<close>

lemma swapNodes_Inr:
  "i < length (heap h) \<Longrightarrow> j < length (heap h) \<Longrightarrow>
   swapNodes i j h = Inr \<lparr>heap = (heap h)[i := heap h ! j, j := heap h ! i],
      nodeToIndex = (nodeToIndex h)(nodeId (heap h ! j) \<mapsto> i, nodeId (heap h ! i) \<mapsto> j)\<rparr>"
  apply (simp add: swapNodes_def Let_def)
  apply (cases "i = j")
   apply (auto simp: nth_list_update)
  done

lemma index_ok_distinct:
  assumes "index_ok h" "i < length (heap h)" "j < length (heap h)"
    "nodeId (heap h ! i) = nodeId (heap h ! j)"
  shows "i = j"
  using assms unfolding index_ok_def
  by (metis atLeastLessThan_iff option.inject zero_le)

lemma swapNodes_index_ok:
  assumes "index_ok h" "swapNodes i j h = Inr h'"
  shows "index_ok h'"
proof -
  from assms(2) have ij: "i < length (heap h)" "j < length (heap h)"
    by (auto simp: swapNodes_def split: if_splits)
  from swapNodes_Inr[OF ij] assms(2) have h': "h' = \<lparr>heap = (heap h)[i := heap h ! j, j := heap h ! i],
      nodeToIndex = (nodeToIndex h)(nodeId (heap h ! j) \<mapsto> i, nodeId (heap h ! i) \<mapsto> j)\<rparr>"
    by simp
  have set_eq: "set ((heap h)[i := heap h ! j, j := heap h ! i]) = set (heap h)"
    using ij by (metis mset_swap set_mset_mset)
  have mem: "heap h ! i \<in> set (heap h)" "heap h ! j \<in> set (heap h)" using ij by auto
  have d: "dom (nodeToIndex h') = nodeId ` set (heap h')"
    using assms(1) mem unfolding h' index_ok_def by (auto simp: set_eq)
  have "nodeToIndex h' (nodeId (heap h' ! k)) = Some k" if "k < length (heap h')" for k
  proof -
    from that have k: "k < length (heap h)" by (simp add: h')
    show ?thesis
      using index_ok_distinct[OF assms(1) k ij(1)] index_ok_distinct[OF assms(1) k ij(2)]
        index_ok_distinct[OF assms(1) ij]  assms(1) k ij
      unfolding h' index_ok_def
      by (auto simp: nth_list_update)
  qed
  with d show ?thesis unfolding index_ok_def by auto
qed

lemma swapNodes_mset:
  "swapNodes i j h = Inr h' \<Longrightarrow> mset (heap h') = mset (heap h)"
  by (auto simp: swapNodes_def Let_def mset_swap split: if_splits)

lemma parent_less: "0 < i \<Longrightarrow> parent i < i"
  by (simp add: parent_def)

lemma parent_cases: "0 < i \<Longrightarrow> i = 2 * parent i + 1 \<or> i = 2 * parent i + 2"
  unfolding parent_def by presburger

lemma parent_of_child: "parent (2 * i + 1) = i" "parent (2 * i + 2) = i"
  by (simp_all add: parent_def)

lemma heap_order_parent:
  "heap_order v = (\<forall>i\<in>{1..<length v}. distance (v ! parent i) \<le> distance (v ! i))"
proof
  assume h: "heap_order v"
  show "\<forall>i\<in>{1..<length v}. distance (v ! parent i) \<le> distance (v ! i)"
  proof
    fix i assume i: "i \<in> {1..<length v}"
    then have p: "parent i < length v" using parent_less[of i] by simp
    from i parent_cases[of i] have "i = 2 * parent i + 1 \<or> i = 2 * parent i + 2" by simp
    then show "distance (v ! parent i) \<le> distance (v ! i)"
    proof
      assume e: "i = 2 * parent i + 1"
      then have "2 * parent i + 1 < length v" using i by simp
      with h p have "distance (v ! parent i) \<le> distance (v ! (2 * parent i + 1))"
        unfolding heap_order_def by simp
      with e show ?thesis by simp
    next
      assume e: "i = 2 * parent i + 2"
      then have "2 * parent i + 2 < length v" using i by simp
      with h p have "distance (v ! parent i) \<le> distance (v ! (2 * parent i + 2))"
        unfolding heap_order_def by simp
      with e show ?thesis by simp
    qed
  qed
next
  assume h: "\<forall>i\<in>{1..<length v}. distance (v ! parent i) \<le> distance (v ! i)"
  show "heap_order v"
    unfolding heap_order_def
  proof (intro ballI conjI impI)
    fix i assume "2 * i + 1 < length v"
    with h have "distance (v ! parent (2 * i + 1)) \<le> distance (v ! (2 * i + 1))" by simp
    then show "distance (v ! i) \<le> distance (v ! (2 * i + 1))" by (simp only: parent_of_child)
  next
    fix i assume "2 * i + 2 < length v"
    with h have "distance (v ! parent (2 * i + 2)) \<le> distance (v ! (2 * i + 2))" by simp
    then show "distance (v ! i) \<le> distance (v ! (2 * i + 2))" by (simp only: parent_of_child)
  qed
qed

lemma up_ok_done:
  "up_ok v k \<Longrightarrow> k = 0 \<or> distance (v ! (parent k)) \<le> distance (v ! k) \<Longrightarrow> heap_order v"
  unfolding up_ok_def heap_order_parent by auto

lemma up_ok_swap:
  assumes k: "0 < k" "k < length v" and ok: "up_ok v k"
    and le: "distance (v ! k) \<le> distance (v ! (parent k))"
  shows "up_ok (v[k := v ! (parent k), parent k := v ! k]) (parent k)"
proof -
  define p where "p = parent k"
  define w where "w = v[k := v ! p, p := v ! k]"
  have pk: "p < k" using k by (simp add: p_def parent_less)
  have pl: "p < length v" using pk k by simp
  have lw: "length w = length v" by (simp add: w_def)
  have wn: "w ! i = (if i = p then v ! k else if i = k then v ! p else v ! i)"
    if "i < length v" for i
    using that k pk by (simp add: w_def nth_list_update)
  have A: "distance (v ! (parent i)) \<le> distance (v ! i)"
    if "1 \<le> i" "i < length v" "i \<noteq> k" for i
    using ok that unfolding up_ok_def by auto
  have B: "distance (v ! (parent k)) \<le> distance (v ! i)"
    if "1 \<le> i" "i < length v" "parent i = k" for i
    using ok that k unfolding up_ok_def by auto
  have 1: "distance (w ! (parent i)) \<le> distance (w ! i)"
    if i: "1 \<le> i" "i < length v" "i \<noteq> p" for i
  proof -
    have pi: "parent i < length v" using i parent_less[of i] by auto
    show ?thesis
    proof (cases "i = k")
      case True
      then show ?thesis using le k pk by (simp add: wn p_def[symmetric])
    next
      case False
      note ik = this
      show ?thesis
      proof (cases "parent i = k")
        case True
        then show ?thesis using B[OF i(1,2) True] i ik pk k
          by (simp add: wn p_def[symmetric])
      next
        case False
        show ?thesis
        proof (cases "parent i = p")
          case True
          have "distance (v ! k) \<le> distance (v ! p)" using le by (simp add: p_def)
          also have "\<dots> \<le> distance (v ! i)" using A[OF i(1,2) ik] True by simp
          finally show ?thesis using i ik True pl by (simp add: wn)
        next
          case False
          then show ?thesis using A[OF i(1,2) ik] i ik \<open>parent i \<noteq> k\<close> pi
            by (simp add: wn)
        qed
      qed
    qed
  qed
  have 2: "distance (w ! (parent p)) \<le> distance (w ! i)"
    if i: "1 \<le> i" "i < length v" "0 < p" "parent i = p" for i
  proof -
    have pp: "parent p < p" using i by (simp add: parent_less)
    then have ppl: "parent p < length v" "parent p \<noteq> k" "parent p \<noteq> p"
      using pk k by auto
    have pv: "distance (v ! (parent p)) \<le> distance (v ! p)"
      using A[of p] i pk k by simp
    have ip: "i \<noteq> p" using i parent_less[of i] by auto
    show ?thesis
    proof (cases "i = k")
      case True
      then show ?thesis using pv ppl i ip by (simp add: wn)
    next
      case False
      have "distance (v ! p) \<le> distance (v ! i)" using A[OF i(1,2) False] i by simp
      with pv show ?thesis using ppl i ip False by (simp add: wn)
    qed
  qed
  show ?thesis
    unfolding up_ok_def p_def[symmetric] w_def[symmetric] lw using 1 2 by auto
qed

lemma bubbleUp_props:
  "k < length (heap h) \<Longrightarrow>
   \<exists>h'. bubbleUp k h = Inr h' \<and> mset (heap h') = mset (heap h) \<and>
        (index_ok h \<longrightarrow> index_ok h') \<and> (up_ok (heap h) k \<longrightarrow> heap_order (heap h'))"
proof (induction k h rule: bubbleUp.induct)
  case (1 index h)
  show ?case
  proof (cases "index = 0")
    case True
    then show ?thesis using up_ok_done[of "heap h" 0] by (simp add: bubbleUp.simps)
  next
    case False
    define p where "p = (index - 1) div 2"
    have pp: "p = parent index" by (simp add: p_def parent_def)
    have pl: "p < length (heap h)" using False "1.prems" parent_less[of index] by (simp add: pp)
    show ?thesis
    proof (cases "HeapNode_gt (heap h ! index) (heap h ! p)")
      case True
      then have "distance (heap h ! parent index) \<le> distance (heap h ! index)"
        by (simp add: HeapNode_gt_def pp)
      then have "up_ok (heap h) index \<Longrightarrow> heap_order (heap h)"
        using up_ok_done[of "heap h" index] by simp
      moreover have "bubbleUp index h = Inr h"
        using False "1.prems" True by (subst bubbleUp.simps) (simp add: p_def Let_def)
      ultimately show ?thesis by auto
    next
      case ng: False
      obtain h1 where h1: "swapNodes index p h = Inr h1"
        and h1v: "heap h1 = (heap h)[index := heap h ! p, p := heap h ! index]"
        using swapNodes_Inr[OF "1.prems" pl] by simp
      have len: "length (heap h1) = length (heap h)" by (simp add: h1v)
      from "1.IH"[OF False _ p_def ng h1] "1.prems" pl len
      obtain h' where h': "bubbleUp p h1 = Inr h'" "mset (heap h') = mset (heap h1)"
        "index_ok h1 \<longrightarrow> index_ok h'" "up_ok (heap h1) p \<longrightarrow> heap_order (heap h')"
        by auto
      have bu: "bubbleUp index h = Inr h'"
        using False "1.prems" ng h1 h'(1) by (subst bubbleUp.simps) (simp add: p_def Let_def)
      have ms: "mset (heap h') = mset (heap h)"
        using h'(2) swapNodes_mset[OF h1] by simp
      have io: "index_ok h \<Longrightarrow> index_ok h'"
        using h'(3) swapNodes_index_ok[OF _ h1] by blast
      have "up_ok (heap h1) p" if "up_ok (heap h) index"
        using up_ok_swap[of index "heap h", OF _ "1.prems" that] False ng
        by (simp add: h1v pp HeapNode_gt_def)
      with h'(4) have ho: "up_ok (heap h) index \<Longrightarrow> heap_order (heap h')" by blast
      from bu ms io ho show ?thesis by blast
    qed
  qed
qed

lemma parent_child: "0 < i \<Longrightarrow> parent i = k \<longleftrightarrow> (i = left k \<or> i = right k)"
  by (auto simp: parent_def left_def right_def)

lemma down_ok_done:
  assumes "down_ok v k"
    and "left k < length v \<longrightarrow> distance (v ! k) \<le> distance (v ! left k)"
    and "right k < length v \<longrightarrow> distance (v ! k) \<le> distance (v ! right k)"
  shows "heap_order v"
  unfolding heap_order_parent
proof
  fix i assume i: "i \<in> {1..<length v}"
  show "distance (v ! parent i) \<le> distance (v ! i)"
  proof (cases "parent i = k")
    case True
    with i have "i = left k \<or> i = right k" by (simp add: parent_child)
    with assms(2,3) i True show ?thesis by auto
  next
    case False
    with assms(1) i show ?thesis unfolding down_ok_def by blast
  qed
qed

lemma down_ok_swap:
  assumes k: "k < length v" and s: "s < length v" "parent s = k" "0 < s"
    and ok: "down_ok v k"
    and le: "distance (v ! s) \<le> distance (v ! k)"
    and sib: "\<And>i. 0 < i \<Longrightarrow> i < length v \<Longrightarrow> parent i = k \<Longrightarrow> distance (v ! s) \<le> distance (v ! i)"
  shows "down_ok (v[k := v ! s, s := v ! k]) s"
proof -
  define w where "w = v[k := v ! s, s := v ! k]"
  have ks: "k < s" using s parent_less[of s] by simp
  have lw: "length w = length v" by (simp add: w_def)
  have wn: "w ! i = (if i = s then v ! k else if i = k then v ! s else v ! i)"
    if "i < length v" for i
    using that k s by (simp add: w_def nth_list_update)
  have A: "distance (v ! parent i) \<le> distance (v ! i)"
    if "1 \<le> i" "i < length v" "parent i \<noteq> k" for i
    using ok that unfolding down_ok_def by auto
  have B: "distance (v ! parent k) \<le> distance (v ! i)"
    if "1 \<le> i" "i < length v" "parent i = k" "0 < k" for i
    using ok that unfolding down_ok_def by auto
  have 1: "distance (w ! parent i) \<le> distance (w ! i)"
    if i: "1 \<le> i" "i < length v" "parent i \<noteq> s" for i
  proof -
    have pi: "parent i < length v" "parent i < i" using i parent_less[of i] by auto
    show ?thesis
    proof (cases "parent i = k")
      case True
      show ?thesis
      proof (cases "i = s")
        case True
        then show ?thesis using le k s ks \<open>parent i = k\<close> by (simp add: wn)
      next
        case False
        have "i \<noteq> k" using True pi by auto
        then show ?thesis using sib[of i] i True False k by (simp add: wn)
      qed
    next
      case False
      note nk = this
      have ins: "i \<noteq> s" using nk s by auto
      show ?thesis
      proof (cases "i = k")
        case True
        have k0: "0 < k" using True i by simp
        have "parent k \<noteq> s" "parent k \<noteq> k" "parent k < length v"
          using parent_less[OF k0] ks k by auto
        then show ?thesis using B[OF _ s(1,2) k0] s True k0 k ins by (simp add: wn)
      next
        case False
        then show ?thesis using A[OF i(1,2) nk] nk i ins pi by (simp add: wn)
      qed
    qed
  qed
  have 2: "distance (w ! parent s) \<le> distance (w ! i)"
    if i: "1 \<le> i" "i < length v" "parent i = s" for i
  proof -
    have "parent i < i" using i parent_less[of i] by auto
    then have ne: "i \<noteq> s" "i \<noteq> k" using i ks by auto
    have "distance (v ! s) \<le> distance (v ! i)" using A[OF i(1,2)] i ks by simp
    then show ?thesis using ne i s k by (simp add: wn)
  qed
  show ?thesis
    unfolding down_ok_def w_def[symmetric] lw using 1 2 by auto
qed

lemma bubbleDown_unfold:
  "bubbleDown index h =
     (if smallest_of (heap h) index \<noteq> index
      then (case swapNodes index (smallest_of (heap h) index) h of
              Inl e \<Rightarrow> Inl e | Inr h' \<Rightarrow> bubbleDown (smallest_of (heap h) index) h')
      else Inr h)"
  apply (subst bubbleDown.simps)
  apply (unfold smallest_of_def Let_def)
  apply simp
  done

lemma smallest_of_cases:
  "smallest_of v k = k \<or> smallest_of v k = left k \<or> smallest_of v k = right k"
  by (simp add: smallest_of_def Let_def left_def right_def)

lemma smallest_of_less:
  "k < length v \<Longrightarrow> smallest_of v k < length v"
  by (simp add: smallest_of_def Let_def)

lemma smallest_of_le:
  "distance (v ! smallest_of v k) \<le> distance (v ! k)"
  "left k < length v \<Longrightarrow> distance (v ! smallest_of v k) \<le> distance (v ! left k)"
  "right k < length v \<Longrightarrow> distance (v ! smallest_of v k) \<le> distance (v ! right k)"
  by (auto simp: smallest_of_def Let_def left_def right_def HeapNode_gt_def)

lemma bubbleDown_props:
  "k < length (heap h) \<Longrightarrow>
   \<exists>h'. bubbleDown k h = Inr h' \<and> mset (heap h') = mset (heap h) \<and>
        (index_ok h \<longrightarrow> index_ok h') \<and> (down_ok (heap h) k \<longrightarrow> heap_order (heap h'))"
proof (induction k h rule: bubbleDown.induct)
  case (1 index h)
  define s where "s = smallest_of (heap h) index"
  show ?case
  proof (cases "s = index")
    case True
    have bd: "bubbleDown index h = Inr h"
      using True "1.prems" by (simp add: bubbleDown_unfold s_def)
    have "heap_order (heap h)" if "down_ok (heap h) index"
      using down_ok_done[OF that] smallest_of_le(2,3)[of index "heap h"] True
      by (simp add: s_def)
    with bd show ?thesis by auto
  next
    case False
    have sl: "s < length (heap h)" using smallest_of_less[OF "1.prems"] by (simp add: s_def)
    have sc: "s = left index \<or> s = right index"
      using smallest_of_cases[of "heap h" index] False by (simp add: s_def)
    then have s0: "0 < s" and ps: "parent s = index"
      by (auto simp: left_def right_def parent_def)
    obtain h1 where h1: "swapNodes index s h = Inr h1"
      and h1v: "heap h1 = (heap h)[index := heap h ! s, s := heap h ! index]"
      using swapNodes_Inr[OF "1.prems" sl] by simp
    have len: "length (heap h1) = length (heap h)" by (simp add: h1v)
    have "\<exists>h'. bubbleDown s h1 = Inr h' \<and> mset (heap h') = mset (heap h1) \<and>
        (index_ok h1 \<longrightarrow> index_ok h') \<and> (down_ok (heap h1) s \<longrightarrow> heap_order (heap h'))"
    proof (rule "1.IH"[OF refl refl refl refl, where xd = s and b = h1])
      show "s = (if 2 * index + 2 < length (heap h) \<and>
          \<not> HeapNode_gt (heap h ! (2 * index + 2))
              (heap h ! (if 2 * index + 1 < length (heap h) \<and>
                  \<not> HeapNode_gt (heap h ! (2 * index + 1)) (heap h ! index)
               then 2 * index + 1 else index))
        then 2 * index + 2
        else if 2 * index + 1 < length (heap h) \<and>
                \<not> HeapNode_gt (heap h ! (2 * index + 1)) (heap h ! index)
             then 2 * index + 1 else index)"
        unfolding s_def smallest_of_def Let_def by (rule refl)
      show "s \<noteq> index" by (rule False)
      show "swapNodes index s h = Inr h1" by (rule h1)
      show "s < length (heap h1)" using sl len by simp
    qed
    then obtain h' where h': "bubbleDown s h1 = Inr h'" "mset (heap h') = mset (heap h1)"
        "index_ok h1 \<longrightarrow> index_ok h'" "down_ok (heap h1) s \<longrightarrow> heap_order (heap h')"
      by auto
    have bd: "bubbleDown index h = Inr h'"
      using "1.prems" False h1 h'(1) by (simp add: bubbleDown_unfold s_def[symmetric])
    have ms: "mset (heap h') = mset (heap h)"
      using h'(2) swapNodes_mset[OF h1] by simp
    have io: "index_ok h \<Longrightarrow> index_ok h'"
      using h'(3) swapNodes_index_ok[OF _ h1] by blast
    have "down_ok (heap h1) s" if d: "down_ok (heap h) index"
      unfolding h1v
    proof (rule down_ok_swap[OF "1.prems" sl ps s0 d])
      show "distance (heap h ! s) \<le> distance (heap h ! index)"
        using smallest_of_le(1)[of "heap h" index] by (simp add: s_def)
    next
      fix i assume "0 < i" "i < length (heap h)" "parent i = index"
      then show "distance (heap h ! s) \<le> distance (heap h ! i)"
        using smallest_of_le(2,3)[of index "heap h"] by (auto simp: parent_child s_def)
    qed
    with h'(4) have ho: "down_ok (heap h) index \<Longrightarrow> heap_order (heap h')" by blast
    from bd ms io ho show ?thesis by blast
  qed
qed


lemma index_ok_lookup:
  assumes "index_ok h" "nodeToIndex h n = Some i"
  shows "i < length (heap h) \<and> nodeId (heap h ! i) = n"
proof -
  from assms have "n \<in> nodeId ` set (heap h)" unfolding index_ok_def by blast
  then obtain j where j: "j < length (heap h)" "nodeId (heap h ! j) = n"
    by (auto simp: in_set_conv_nth)
  with assms have "nodeToIndex h n = Some j" unfolding index_ok_def by auto
  with assms(2) j show ?thesis by simp
qed

lemma index_ok_contains:
  "index_ok h \<Longrightarrow> contains h n \<longleftrightarrow> n \<in> nodeId ` set (heap h)"
  unfolding index_ok_def contains_def by (metis domIff)

lemma decreaseKey_inv:
  assumes inv: "heap_inv h" and c: "contains h n"
  shows "\<exists>h'. decreaseKey n d h = Inr h' \<and> heap_inv h' \<and>
           nodeId ` set (heap h') = nodeId ` set (heap h)"
proof -
  from c obtain i where i: "nodeToIndex h n = Some i" by (auto simp: contains_def)
  from inv have io: "index_ok h" and ho: "heap_order (heap h)" by (auto simp: heap_inv_def)
  from index_ok_lookup[OF io i] have il: "i < length (heap h)" and idn: "nodeId (heap h ! i) = n"
    by auto
  show ?thesis
  proof (cases "d \<ge> distance (heap h ! i)")
    case True
    then have "decreaseKey n d h = Inr h" using i il by (simp add: decreaseKey_def)
    with inv show ?thesis by auto
  next
    case False
    define v where "v = (heap h)[i := (heap h ! i)\<lparr>distance := d\<rparr>]"
    define h1 where "h1 = h\<lparr>heap := v\<rparr>"
    have dk: "decreaseKey n d h = bubbleUp i h1"
      using False i il by (simp add: decreaseKey_def h1_def v_def)
    have lv: "length v = length (heap h)" by (simp add: v_def)
    have idv: "nodeId (v ! j) = nodeId (heap h ! j)" if "j < length (heap h)" for j
      using that by (cases "j = i") (simp_all add: v_def)
    have dv: "distance (v ! j) = (if j = i then d else distance (heap h ! j))"
      if "j < length (heap h)" for j
      using that by (cases "j = i") (simp_all add: v_def)
    have ids: "nodeId ` set v = nodeId ` set (heap h)"
    proof -
      have "map nodeId v = map nodeId (heap h)"
        by (rule nth_equalityI) (simp_all add: lv idv)
      then have "set (map nodeId v) = set (map nodeId (heap h))" by simp
      then show ?thesis by simp
    qed
    have io1: "index_ok h1"
      using io unfolding index_ok_def h1_def by (simp add: ids lv idv)
    have up: "up_ok v i"
      unfolding up_ok_def
    proof (intro conjI ballI impI)
      fix j assume j: "j \<in> {1..<length v}" "j \<noteq> i"
      then have pj: "parent j < j" "parent j < length (heap h)" "j < length (heap h)"
        using parent_less[of j] lv by auto
      have "distance (heap h ! parent j) \<le> distance (heap h ! j)"
        using ho j lv unfolding heap_order_parent by simp
      then show "distance (v ! parent j) \<le> distance (v ! j)"
        using False j pj by (auto simp: dv)
    next
      fix j assume j: "j \<in> {1..<length v}" "0 < i" "parent j = i"
      then have pj: "parent j < j" "j < length (heap h)" "j \<noteq> i"
        using parent_less[of j] lv by auto
      have pi: "parent i < i" using j by (simp add: parent_less)
      have "distance (heap h ! parent i) \<le> distance (heap h ! i)"
        using ho j il unfolding heap_order_parent by simp
      also have "\<dots> \<le> distance (heap h ! j)"
        using ho j lv unfolding heap_order_parent by auto
      finally show "distance (v ! parent i) \<le> distance (v ! j)"
        using pj pi il by (simp add: dv)
    qed
    have "i < length (heap h1)" using il by (simp add: h1_def lv)
    from bubbleUp_props[OF this] obtain h' where h': "bubbleUp i h1 = Inr h'"
      "mset (heap h') = mset (heap h1)" "index_ok h1 \<longrightarrow> index_ok h'"
      "up_ok (heap h1) i \<longrightarrow> heap_order (heap h')" by blast
    have "mset (heap h') = mset v" using h'(2) by (simp add: h1_def)
    then have "set (heap h') = set v" by (rule mset_eq_setD)
    with h' io1 up dk ids show ?thesis by (auto simp: heap_inv_def h1_def)
  qed
qed

lemma addNode_inv:
  assumes inv: "heap_inv h"
  shows "\<exists>h'. addNode n d h = Inr h' \<and> heap_inv h' \<and>
           nodeId ` set (heap h') = insert n (nodeId ` set (heap h))"
proof (cases "contains h n")
  case True
  from inv have io: "index_ok h" by (simp add: heap_inv_def)
  from decreaseKey_inv[OF inv True, of d] True index_ok_contains[OF io, of n]
  show ?thesis by (auto simp: addNode_def)
next
  case False
  from inv have io: "index_ok h" and ho: "heap_order (heap h)" by (auto simp: heap_inv_def)
  define v where "v = heap h @ [\<lparr>nodeId = n, distance = d\<rparr>]"
  define k where "k = length (heap h)"
  define h1 where "h1 = \<lparr>heap = v, nodeToIndex = (nodeToIndex h)(n \<mapsto> k)\<rparr>"
  have an: "addNode n d h = bubbleUp k h1"
    using False by (simp add: addNode_def Let_def h1_def v_def k_def)
  have nn: "n \<notin> nodeId ` set (heap h)" using False index_ok_contains[OF io] by simp
  have io1: "index_ok h1"
    unfolding index_ok_def
  proof (intro conjI ballI)
    show "dom (nodeToIndex h1) = nodeId ` set (heap h1)"
      using io by (auto simp: index_ok_def h1_def v_def)
  next
    fix i assume "i \<in> {0..<length (heap h1)}"
    then have "i < k \<or> i = k" by (auto simp: h1_def v_def k_def)
    then show "nodeToIndex h1 (nodeId (heap h1 ! i)) = Some i"
    proof
      assume i: "i < k"
      then have "nodeId (heap h ! i) \<noteq> n" using nn by (auto simp: k_def)
      with i io show ?thesis by (simp add: h1_def v_def k_def nth_append index_ok_def)
    next
      assume "i = k"
      then show ?thesis by (simp add: h1_def v_def k_def)
    qed
  qed
  have up: "up_ok v k"
    unfolding up_ok_def
  proof (intro conjI ballI impI)
    fix j assume j: "j \<in> {1..<length v}" "j \<noteq> k"
    then have jl: "j < length (heap h)" "parent j < length (heap h)"
      using parent_less[of j] by (auto simp: v_def k_def)
    then show "distance (v ! parent j) \<le> distance (v ! j)"
      using ho j unfolding heap_order_parent by (simp add: v_def nth_append)
  next
    fix j assume j: "j \<in> {1..<length v}" "0 < k" "parent j = k"
    then have False using parent_less[of j] by (auto simp: v_def k_def)
    then show "distance (v ! parent k) \<le> distance (v ! j)" ..
  qed
  have "k < length (heap h1)" by (simp add: h1_def v_def k_def)
  from bubbleUp_props[OF this] obtain h' where h': "bubbleUp k h1 = Inr h'"
      "mset (heap h') = mset (heap h1)" "index_ok h1 \<longrightarrow> index_ok h'"
      "up_ok (heap h1) k \<longrightarrow> heap_order (heap h')" by blast
  have "mset (heap h') = mset v" using h'(2) by (simp add: h1_def)
  then have "set (heap h') = set v" by (rule mset_eq_setD)
  with h' io1 up an show ?thesis by (auto simp: heap_inv_def h1_def v_def)
qed

lemma deleteRoot_empty:
  "heap h = [] \<Longrightarrow> deleteRoot h = Inl (RuntimeError ''Cannot delete from empty heap'')"
  by (simp add: deleteRoot_def isEmpty_def)

lemma deleteRoot_inv:
  assumes inv: "heap_inv h" and ne: "heap h \<noteq> []"
  shows "\<exists>h'. deleteRoot h = Inr (heap h ! 0, h') \<and> heap_inv h' \<and>
           mset (heap h) = add_mset (heap h ! 0) (mset (heap h')) \<and>
           \<not> contains h' (nodeId (heap h ! 0))"
proof (cases "length (heap h) = 1")
  case True
  then have "heap h = [heap h ! 0]" by (cases "heap h") auto
  then have "mset (heap h) = {#heap h ! 0#}" by (metis mset.simps(1) mset.simps(2))
  moreover have "deleteRoot h = Inr (heap h ! 0, \<lparr>heap = [], nodeToIndex = Map.empty\<rparr>)"
    using True ne by (simp add: deleteRoot_def isEmpty_def)
  ultimately show ?thesis
    by (simp add: heap_inv_def heap_order_def index_ok_def contains_def)
next
  case False
  from inv have io: "index_ok h" and ho: "heap_order (heap h)" by (auto simp: heap_inv_def)
  define root where "root = heap h ! 0"
  define n where "n = length (heap h) - 1"
  have n: "0 < n" "length (heap h) = Suc n" using False ne by (auto simp: n_def Suc_lessI)
  define v where "v = butlast ((heap h)[0 := last (heap h)])"
  define h1 where "h1 = \<lparr>heap = v,
     nodeToIndex = ((nodeToIndex h)(nodeId root := None))(nodeId (v ! 0) \<mapsto> 0)\<rparr>"
  have dr: "deleteRoot h = (case bubbleDown 0 h1 of Inl e \<Rightarrow> Inl e | Inr h' \<Rightarrow> Inr (root, h'))"
    unfolding h1_def v_def root_def
    using False ne by (simp add: deleteRoot_def isEmpty_def Let_def)
  have lv: "length v = n" by (simp add: v_def n_def)
  have la: "last (heap h) = heap h ! n" using ne by (simp add: last_conv_nth n_def)
  have vn: "v ! i = (if i = 0 then heap h ! n else heap h ! i)" if "i < n" for i
    using that n by (simp add: v_def nth_butlast la nth_list_update)
  have dist: "i = j" if "i \<le> n" "j \<le> n" "nodeId (heap h ! i) = nodeId (heap h ! j)" for i j
    using index_ok_distinct[OF io _ _ that(3)] that n by simp
  have ms: "mset (heap h) = add_mset root (mset v)"
  proof -
    have "heap h = root # tl (heap h)" using ne by (cases "heap h") (auto simp: root_def)
    moreover have "tl (heap h) \<noteq> []" using n by (cases "heap h") auto
    ultimately have "heap h = root # butlast (tl (heap h)) @ [last (heap h)]"
      by (metis append_butlast_last_id last_tl)
    moreover have "v = last (heap h) # butlast (tl (heap h))"
      using ne \<open>tl (heap h) \<noteq> []\<close> by (cases "heap h") (auto simp: v_def)
    ultimately show ?thesis by (metis add_mset_commute mset.simps(2) mset_append union_mset_add_mset_right mset.simps(1) add.right_neutral)
  qed
  have rootv: "nodeId root \<notin> nodeId ` set v"
  proof
    assume "nodeId root \<in> nodeId ` set v"
    then obtain i where i: "i < n" "nodeId (v ! i) = nodeId root"
      by (auto simp: in_set_conv_nth lv)
    then have "nodeId (heap h ! (if i = 0 then n else i)) = nodeId (heap h ! 0)"
      by (auto simp: vn root_def split: if_splits)
    moreover have "(if i = 0 then n else i) \<le> n" "(if i = 0 then n else i) \<noteq> 0"
      using i n by auto
    ultimately show False using dist[of "if i = 0 then n else i" 0] by simp
  qed
  have ids: "nodeId ` set (heap h) = insert (nodeId root) (nodeId ` set v)"
  proof -
    have "set (heap h) = insert root (set v)"
      using ms by (metis set_mset_add_mset_insert set_mset_mset)
    then show ?thesis by simp
  qed
  have io1: "index_ok h1"
    unfolding index_ok_def
  proof (intro conjI ballI)
    have "v ! 0 \<in> set v" using n lv by (metis nth_mem)
    then show "dom (nodeToIndex h1) = nodeId ` set (heap h1)"
      using io rootv ids unfolding index_ok_def h1_def by auto
  next
    fix i assume "i \<in> {0..<length (heap h1)}"
    then have i: "i < n" by (simp add: h1_def lv)
    show "nodeToIndex h1 (nodeId (heap h1 ! i)) = Some i"
    proof (cases "i = 0")
      case True
      then show ?thesis by (simp add: h1_def)
    next
      case False
      have "v ! i \<in> set v" using i lv by (metis nth_mem)
      then have 1: "nodeId (v ! i) \<noteq> nodeId root" using rootv by (metis imageI)
      have 2: "nodeId (v ! i) \<noteq> nodeId (v ! 0)"
        using dist[of i n] i n False by (auto simp: vn)
      have "nodeToIndex h (nodeId (heap h ! i)) = Some i"
        using io i n unfolding index_ok_def by simp
      with 1 2 False i show ?thesis by (simp add: h1_def vn)
    qed
  qed
  have down: "down_ok v 0"
    unfolding down_ok_def
  proof (intro conjI ballI impI)
    fix i assume i: "i \<in> {1..<length v}" "parent i \<noteq> 0"
    then have "parent i < i" "i < n" using parent_less[of i] lv by auto
    moreover have "distance (heap h ! parent i) \<le> distance (heap h ! i)"
      using ho i lv n unfolding heap_order_parent by simp
    ultimately show "distance (v ! parent i) \<le> distance (v ! i)"
      using i by (simp add: vn)
  qed simp
  have "0 < length (heap h1)" using n by (simp add: h1_def lv)
  from bubbleDown_props[OF this] obtain h' where h': "bubbleDown 0 h1 = Inr h'"
      "mset (heap h') = mset (heap h1)" "index_ok h1 \<longrightarrow> index_ok h'"
      "down_ok (heap h1) 0 \<longrightarrow> heap_order (heap h')" by blast
  have mv: "mset (heap h') = mset v" using h'(2) by (simp add: h1_def)
  then have sv: "set (heap h') = set v" by (rule mset_eq_setD)
  have inv': "heap_inv h'" using h' io1 down by (simp add: heap_inv_def h1_def)
  then have "index_ok h'" by (simp add: heap_inv_def)
  from index_ok_contains[OF this] rootv sv
  have nc: "\<not> contains h' (nodeId root)" by simp
  from dr h'(1) inv' ms mv nc show ?thesis by (simp add: root_def)
qed


lemma heap_inv_clear: "heap_inv (clear h)"
  by (simp add: heap_inv_def heap_order_def index_ok_def clear_def)








lemma ball_upt_Suc: "(\<forall>i\<in>{0..<Suc n}. P i) = ((\<forall>i\<in>{0..<n}. P i) \<and> P n)"
  by (auto simp: less_Suc_eq)

section \<open>Properties of the graph and the solver\<close>

lemma getNode_absent:
  "\<not> hasNode g n \<Longrightarrow> getNode g n = Inl (OutOfRange (''Node with ID '' @ to_string n @ '' not found''))"
  by (auto simp: getNode_def hasNode_def find_None_iff split: option.splits)

lemma getNode_present: "hasNode g n \<Longrightarrow> \<exists>node. getNode g n = Inr node"
  by (auto simp: getNode_def hasNode_def find_None_iff split: option.splits)

lemma hasNode_count: "hasNode g n \<Longrightarrow> getNodeCount g \<noteq> 0"
  by (auto simp: hasNode_def getNodeCount_def)



lemma getNode_Inr_count: "getNode g n = Inr node \<Longrightarrow> getNodeCount g \<noteq> 0"
  by (auto simp: getNode_def getNodeCount_def split: option.splits)

lemma empty_graph_reports_invalid_endpoint:
  assumes "getNodeCount g = 0" and "source \<noteq> destination"
  shows "dijkstraWithBattery g source destination initialBattery mileage =
     Some (Inr \<lparr>path = [], totalDistance = None, totalBatteryUsed = None,
                success = False, message = ''Invalid source or destination node''\<rparr>)"
proof -
  from assms(1) have "nodes g = []" by (simp add: getNodeCount_def)
  then have "getNode g source =
      Inl (OutOfRange (''Node with ID '' @ to_string source @ '' not found''))"
    by (simp add: getNode_def)
  then show ?thesis using assms(2) by (simp add: dijkstraWithBattery_def result0_def)
qed

lemma graph_is_empty_unreachable:
  assumes "dijkstraWithBattery g source destination initialBattery mileage = Some (Inr r)"
  shows "message r \<noteq> ''Graph is empty''"
  using assms
  by (auto simp: dijkstraWithBattery_def result0_def Let_def
      dest: getNode_Inr_count
      split: sum.splits option.splits if_splits error.splits)

lemma batteryConsumption_floor:
  assumes "0 \<le> w" and "0 < r"
  shows "batteryConsumption w r = Inr (max 1 \<lfloor>real_of_int w / real_of_int r\<rfloor>)"
proof -
  have "w sdiv r = w div r"
    using assms by (simp add: signed_divide_int_def sgn_if)
  moreover have "\<lfloor>real_of_int w / real_of_int r\<rfloor> = w div r"
    by (simp add: floor_divide_of_int_eq)
  ultimately show ?thesis
    using assms by (auto simp: batteryConsumption_def Let_def max_def)
qed

lemma relaxEdge_accepted:
  assumes "batteryConsumption w r = Inr c"
    and "valueAt (batteryUsed s) u + c \<le> B"
    and "valueAt (distances s) u + w < valueAt (distances s) v"
    and "relaxEdge B r u (v, w) s = Inr s'"
  shows "valueAt (batteryUsed s') v = valueAt (batteryUsed s) u + c"
  using assms
  by (auto simp: relaxEdge_def Let_def valueAt_def split: sum.splits if_splits)


























lemma getNode_Inr_hasNode: "getNode g n = Inr node \<Longrightarrow> hasNode g n"
  by (auto simp: getNode_def hasNode_def find_Some_iff split: option.splits)




section \<open>The claims\<close>




text \<open>
  Claim C2, as amended. When source and destination differ, both are nodes of the graph
  and the main loop ends with the sentinel as the distance of the destination, the
  solver returns a failure with the empty path and the message
  "No path exists within battery constraints". It assigns neither the total distance
  nor the total battery used of that result: they are not 0 but indeterminate.
\<close>

theorem unreachable_destination:
  assumes "source \<noteq> destination"
    and "hasNode g source" and "hasNode g destination"
    and "initialState g source = Inr s0"
    and "mainLoop g destination initialBattery mileage s0 = Some (Inr s)"
    and "valueAt (distances s) destination = INT_MAX"
  shows "dijkstraWithBattery g source destination initialBattery mileage =
     Some (Inr \<lparr>path = [], totalDistance = None, totalBatteryUsed = None,
                success = False, message = ''No path exists within battery constraints''\<rparr>)"
proof -
  obtain a b where "getNode g source = Inr a" "getNode g destination = Inr b"
    using assms(2,3) getNode_present by blast
  then show ?thesis
    using assms(1,4,5,6) hasNode_count[OF assms(2)]
    by (simp add: dijkstraWithBattery_def result0_def)
qed

theorem unreachable_destination_witness:
  "\<exists>s0 s. (1::int) \<noteq> 3 \<and> hasNode disconnected 1 \<and> hasNode disconnected 3 \<and>
     initialState disconnected 1 = Inr s0 \<and>
     mainLoop disconnected 3 100 10 s0 = Some (Inr s) \<and>
     valueAt (distances s) 3 = INT_MAX \<and>
     dijkstraWithBattery disconnected 1 3 100 10 =
       Some (Inr \<lparr>path = [], totalDistance = None, totalBatteryUsed = None,
                  success = False, message = ''No path exists within battery constraints''\<rparr>)"
proof -
  have ne: "(1::int) \<noteq> 3" by simp
  have h: "hasNode disconnected 1" "hasNode disconnected 3" by code_simp+
  have "case initialState disconnected 1 of Inl e \<Rightarrow> False
        | Inr s0 \<Rightarrow> (case mainLoop disconnected 3 100 10 s0 of
                       Some (Inr s) \<Rightarrow> valueAt (distances s) 3 = INT_MAX | _ \<Rightarrow> False)"
    by code_simp
  then obtain s0 where s0: "initialState disconnected 1 = Inr s0"
    and r: "case mainLoop disconnected 3 100 10 s0 of
              Some (Inr s) \<Rightarrow> valueAt (distances s) 3 = INT_MAX | _ \<Rightarrow> False"
    by (cases "initialState disconnected 1") auto
  from r obtain o1 where o1: "mainLoop disconnected 3 100 10 s0 = Some o1"
    by (cases "mainLoop disconnected 3 100 10 s0") auto
  from r o1 obtain s where "o1 = Inr s" "valueAt (distances s) 3 = INT_MAX"
    by (cases o1) auto
  with s0 o1 have s: "initialState disconnected 1 = Inr s0"
    "mainLoop disconnected 3 100 10 s0 = Some (Inr s)" "valueAt (distances s) 3 = INT_MAX"
    by simp_all
  from unreachable_destination[OF ne h s] ne h s show ?thesis by blast
qed

theorem unreachable_destination_counterexample:
  "hasNode disconnected 1 \<and> hasNode disconnected 3 \<and>
   dijkstraWithBattery disconnected 1 3 100 10 =
     Some (Inr \<lparr>path = [], totalDistance = None, totalBatteryUsed = None,
                success = False, message = ''No path exists within battery constraints''\<rparr>) \<and>
   totalDistance \<lparr>path = [], totalDistance = None, totalBatteryUsed = None,
                success = False, message = ''No path exists within battery constraints''\<rparr>
     \<noteq> Some 0"
  by code_simp

text \<open>
  Claim C3. On the graph with no nodes and two different endpoints the solver does not
  return the message "Graph is empty": the test for the endpoints comes first and
  returns "Invalid source or destination node". (The lemmas
  \<open>empty_graph_reports_invalid_endpoint\<close> and \<open>graph_is_empty_unreachable\<close> show the
  same for every graph with no nodes, and that no call returns "Graph is empty".)
\<close>

theorem empty_graph_message:
  "getNodeCount Graph_new = 0 \<and>
   dijkstraWithBattery Graph_new 1 2 100 10 =
     Some (Inr \<lparr>path = [], totalDistance = None, totalBatteryUsed = None,
                success = False, message = ''Invalid source or destination node''\<rparr>)"
  by (simp add: getNodeCount_def Graph_new_def dijkstraWithBattery_def result0_def getNode_def)

text \<open>
  Claim C4, as amended. When source and destination differ and one of them is not a node
  of the graph, the solver returns a failure with the empty path and the message
  "Invalid source or destination node", whatever the edges, the budget and the rate are
  (also for the rate 0, by which a relaxation would divide): it returns before it builds
  its maps and its heap. When source and destination are equal the solver returns a success
  even if the node is not in the graph.
\<close>

theorem invalid_endpoint:
  assumes "source \<noteq> destination"
    and "\<not> hasNode g source \<or> \<not> hasNode g destination"
  shows "dijkstraWithBattery g source destination initialBattery mileage =
     Some (Inr \<lparr>path = [], totalDistance = None, totalBatteryUsed = None,
                success = False, message = ''Invalid source or destination node''\<rparr>)"
proof (cases "hasNode g source")
  case False
  then show ?thesis
    using assms(1) getNode_absent[of g source]
    by (simp add: dijkstraWithBattery_def result0_def)
next
  case True
  then obtain node where "getNode g source = Inr node" using getNode_present by blast
  moreover have "\<not> hasNode g destination" using True assms(2) by simp
  ultimately show ?thesis
    using assms(1) getNode_absent[of g destination]
    by (simp add: dijkstraWithBattery_def result0_def)
qed

theorem invalid_endpoint_witness:
  "(1::int) \<noteq> 9 \<and> hasNode graph123 1 \<and> \<not> hasNode graph123 9 \<and>
   dijkstraWithBattery graph123 1 9 2 10 =
     Some (Inr \<lparr>path = [], totalDistance = None, totalBatteryUsed = None,
                success = False, message = ''Invalid source or destination node''\<rparr>)"
proof -
  have a: "(1::int) \<noteq> 9" by simp
  have b: "hasNode graph123 1" "\<not> hasNode graph123 9"
    by (simp_all add: hasNode_def graph123_def addEdge_def Graph_addNode_def Graph_new_def
        adjacencyAt_def Let_def)
  from b(2) have c: "\<not> hasNode graph123 1 \<or> \<not> hasNode graph123 9" by simp
  show ?thesis using a b invalid_endpoint[OF a c, of 2 10] by simp
qed

theorem invalid_endpoint_counterexample:
  "\<not> hasNode Graph_new 5 \<and>
   dijkstraWithBattery Graph_new 5 5 100 10 =
     Some (Inr \<lparr>path = [5], totalDistance = Some 0, totalBatteryUsed = Some 0,
                success = True, message = ''Source and destination are the same''\<rparr>)"
  by (simp add: hasNode_def Graph_new_def dijkstraWithBattery_def result0_def)

text \<open>
  Claim C5. For every graph, every budget and every rate (positive or not), the solver
  called with the source as destination returns a success with the path of that one
  node, total distance 0 and total battery used 0.
\<close>

theorem trivial_path:
  "dijkstraWithBattery g source source initialBattery mileage =
     Some (Inr \<lparr>path = [source], totalDistance = Some 0, totalBatteryUsed = Some 0,
                success = True, message = ''Source and destination are the same''\<rparr>)"
  by (simp add: dijkstraWithBattery_def result0_def)

text \<open>
  Claim C6. For an edge of weight \<open>w \<ge> 0\<close> and a rate \<open>r > 0\<close> the battery consumption
  computed by lines 88 and 89 is the maximum of 1 and the floor of \<open>w / r\<close>; it is 1
  when \<open>w / r < 1\<close>; and a relaxation that is accepted stores, as the battery used at the
  neighbour, the battery used at the current node plus that amount.
\<close>

theorem resource_floor:
  assumes "0 \<le> w" and "0 < r"
  shows "batteryConsumption w r = Inr (max 1 \<lfloor>real_of_int w / real_of_int r\<rfloor>) \<and>
         (real_of_int w / real_of_int r < 1 \<longrightarrow> batteryConsumption w r = Inr 1) \<and>
         (valueAt (batteryUsed s) u + max 1 \<lfloor>real_of_int w / real_of_int r\<rfloor> \<le> B \<longrightarrow>
          valueAt (distances s) u + w < valueAt (distances s) v \<longrightarrow>
          relaxEdge B r u (v, w) s = Inr s' \<longrightarrow>
          valueAt (batteryUsed s') v =
            valueAt (batteryUsed s) u + max 1 \<lfloor>real_of_int w / real_of_int r\<rfloor>)"
proof (intro conjI impI)
  show c: "batteryConsumption w r = Inr (max 1 \<lfloor>real_of_int w / real_of_int r\<rfloor>)"
    by (rule batteryConsumption_floor[OF assms])
  show "batteryConsumption w r = Inr 1" if "real_of_int w / real_of_int r < 1"
  proof -
    from that assms have "\<lfloor>real_of_int w / real_of_int r\<rfloor> \<le> 0"
      by (simp add: floor_le_iff)
    with c show ?thesis by simp
  qed
  show "valueAt (batteryUsed s') v =
          valueAt (batteryUsed s) u + max 1 \<lfloor>real_of_int w / real_of_int r\<rfloor>"
    if "valueAt (batteryUsed s) u + max 1 \<lfloor>real_of_int w / real_of_int r\<rfloor> \<le> B"
      "valueAt (distances s) u + w < valueAt (distances s) v"
      "relaxEdge B r u (v, w) s = Inr s'"
    using relaxEdge_accepted[OF c that] .
qed

theorem resource_floor_witness:
  "\<exists>s'. (0::int) \<le> 3 \<and> (0::int) < 10 \<and> real_of_int 3 / real_of_int 10 < 1 \<and>
     batteryConsumption 3 10 = Inr 1 \<and>
     valueAt (batteryUsed state_example) 1 + 1 \<le> 2 \<and>
     valueAt (distances state_example) 1 + 3 < valueAt (distances state_example) 2 \<and>
     relaxEdge 2 10 1 (2, 3) state_example = Inr s' \<and>
     valueAt (batteryUsed s') 2 = 1"
proof -
  have a: "(0::int) \<le> 3" "(0::int) < 10" by simp_all
  have b: "real_of_int 3 / real_of_int 10 < 1" by simp
  have f: "max 1 \<lfloor>real_of_int 3 / real_of_int 10\<rfloor> = 1" by simp
  have c: "valueAt (batteryUsed state_example) 1 + 1 \<le> 2"
    "valueAt (distances state_example) 1 + 3 < valueAt (distances state_example) 2"
    "valueAt (batteryUsed state_example) 1 = 0"
    by (simp_all add: state_example_def valueAt_def INT_MAX_def)
  have "case relaxEdge 2 10 1 (2, 3) state_example of Inl e \<Rightarrow> False | Inr s' \<Rightarrow> True"
    by code_simp
  then obtain s' where s': "relaxEdge 2 10 1 (2, 3) state_example = Inr s'"
    by (auto split: sum.splits)
  show ?thesis
    using a b c s' resource_floor[OF a, of state_example 1 2 2 s'] by (simp add: f)
qed

text \<open>
  Claim C7. On the graph built by \<^verbatim>\<open>addEdge(1, 2, 10)\<close> and \<^verbatim>\<open>addEdge(2, 3, 10)\<close>, which
  has the nodes 1, 2, 3 and each edge in the adjacency lists of both its ends, the
  solver called from 1 to 3 with budget 2 and rate 10 returns a success with the path
  1, 2, 3, total distance 20 and total battery used 2.
\<close>

theorem concrete_scenario:
  "map idNode (getNodes graph123) = [1, 2, 3] \<and>
   getNeighbors graph123 1 = [(2, 10)] \<and>
   getNeighbors graph123 2 = [(1, 10), (3, 10)] \<and>
   getNeighbors graph123 3 = [(2, 10)] \<and>
   dijkstraWithBattery graph123 1 3 2 10 =
     Some (Inr \<lparr>path = [1, 2, 3], totalDistance = Some 20, totalBatteryUsed = Some 2,
                success = True, message = ''Path found successfully''\<rparr>)"
  by code_simp



text \<open>
  Claim C9. On a heap that satisfies the invariant (heap order and index consistency),
  \<open>addNode\<close> returns a heap that satisfies it; \<open>deleteRoot\<close> throws on the empty heap
  and otherwise leaves a heap that satisfies it; \<open>decreaseKey\<close> throws for a node that
  is absent and otherwise returns a heap that satisfies it; \<open>clear\<close> leaves a heap
  that satisfies it.
\<close>

theorem heap_invariant_preserved:
  assumes "heap_inv h"
  shows "(\<exists>h'. addNode n d h = Inr h' \<and> heap_inv h') \<and>
         (if isEmpty h
          then deleteRoot h = Inl (RuntimeError ''Cannot delete from empty heap'')
          else \<exists>root h'. deleteRoot h = Inr (root, h') \<and> heap_inv h') \<and>
         (if contains h n
          then \<exists>h'. decreaseKey n d h = Inr h' \<and> heap_inv h'
          else decreaseKey n d h = Inl (InvalidArgument ''Node not found in heap'')) \<and>
         heap_inv (clear h)"
proof (intro conjI)
  show "\<exists>h'. addNode n d h = Inr h' \<and> heap_inv h'"
    using addNode_inv[OF assms, of n d] by blast
  show "if isEmpty h
        then deleteRoot h = Inl (RuntimeError ''Cannot delete from empty heap'')
        else \<exists>root h'. deleteRoot h = Inr (root, h') \<and> heap_inv h'"
    using deleteRoot_inv[OF assms] deleteRoot_empty[of h] by (auto simp: isEmpty_def)
  show "if contains h n
        then \<exists>h'. decreaseKey n d h = Inr h' \<and> heap_inv h'
        else decreaseKey n d h = Inl (InvalidArgument ''Node not found in heap'')"
    using decreaseKey_inv[OF assms, of n d] by (auto simp: decreaseKey_def contains_def)
  show "heap_inv (clear h)" by (rule heap_inv_clear)
qed

theorem heap_invariant_preserved_witness:
  "heap_inv heap_example \<and>
   (\<exists>h'. addNode 4 1 heap_example = Inr h' \<and> heap_inv h') \<and>
   (\<exists>root h'. deleteRoot heap_example = Inr (root, h') \<and> heap_inv h') \<and>
   (\<exists>h'. decreaseKey 3 2 heap_example = Inr h' \<and> heap_inv h') \<and>
   decreaseKey 7 2 heap_example = Inl (InvalidArgument ''Node not found in heap'') \<and>
   heap_inv (clear heap_example)"
proof -
  have inv: "heap_inv heap_example"
    by (simp add: heap_inv_def heap_order_def index_ok_def heap_example_def ball_upt_Suc
        insert_commute)
  have c: "\<not> isEmpty heap_example" "contains heap_example 3" "\<not> contains heap_example 7"
    by (simp_all add: isEmpty_def contains_def heap_example_def)
  show ?thesis
    using inv c heap_invariant_preserved[OF inv, of 4 1]
      heap_invariant_preserved[OF inv, of 3 2] heap_invariant_preserved[OF inv, of 7 2]
    by simp
qed

text \<open>
  Claim C10. \<^verbatim>\<open>Graph::getNeighbors\<close> has no failure: its result is a plain list, and
  for a node id without an entry in the adjacency lists it is the empty list.
\<close>

theorem getNeighbors_absent:
  "adjacencyList g node = None \<Longrightarrow> getNeighbors g node = []"
  by (simp add: getNeighbors_def)

theorem getNeighbors_absent_witness:
  "adjacencyList graph123 7 = None \<and> getNeighbors graph123 7 = []"
proof -
  have a: "adjacencyList graph123 7 = None"
    by (simp add: graph123_def addEdge_def Graph_addNode_def Graph_new_def
        adjacencyAt_def Let_def)
  show ?thesis using a getNeighbors_absent[OF a] by simp
qed

end
